theory Spec2Isabelle
  imports Main "HOL-Library.Sublist"
begin

section \<open>Strings\<close>

text \<open>
  A Python \<open>str\<close> is a sequence of Unicode code points, and is modelled as a list of
  natural numbers, one number per code point. \<open>lit\<close> writes the \<open>str\<close> of a literal of
  ASCII characters.
\<close>

type_synonym str = "nat list"

definition lit :: "string \<Rightarrow> str" where
  "lit s = map of_char s"

text \<open>
  What Python knows about characters comes from the Unicode character database built
  into the interpreter and into the module \<open>re\<close>; it is not part of the repository. The
  functions of \<open>str\<close> and of \<open>re\<close> that read it are the fields of the record \<open>unicode\<close>, and
  every function of the program takes such a record \<open>U\<close> as its first argument:

  \<^item> \<open>isspace U c\<close>: \<open>c\<close> is whitespace for \<open>str.strip\<close>, \<open>str.split\<close> and \<open>str.isspace\<close>;
  \<^item> \<open>decimal U c\<close>: the class \<open>\d\<close> of a \<open>str\<close> pattern matches \<open>c\<close> (a decimal digit of
    any script);
  \<^item> \<open>ignorecase U p c\<close>: under \<open>re.IGNORECASE\<close> the literal \<open>p\<close> of a pattern matches the
    character \<open>c\<close>;
  \<^item> \<open>lower U s\<close>, \<open>upper U s\<close>, \<open>capitalize U s\<close>: \<open>s.lower()\<close>, \<open>s.upper()\<close> and
    \<open>s.capitalize()\<close>. They act on whole strings, since a character may change into
    several and the lower case of a letter may depend on its place in the word.
\<close>

record unicode =
  isspace :: "nat \<Rightarrow> bool"
  decimal :: "nat \<Rightarrow> bool"
  ignorecase :: "nat \<Rightarrow> nat \<Rightarrow> bool"
  lower :: "str \<Rightarrow> str"
  upper :: "str \<Rightarrow> str"
  capitalize :: "str \<Rightarrow> str"

text \<open>\<open>s.strip()\<close>: whitespace removed at both ends.\<close>

definition strip :: "unicode \<Rightarrow> str \<Rightarrow> str" where
  "strip U s = rev (dropWhile (isspace U) (rev (dropWhile (isspace U) s)))"

text \<open>\<open>s.split(sep)\<close> for a one-character separator: every separator cuts, empty pieces
  are kept, and the empty string gives one empty piece.\<close>

fun split_on :: "nat \<Rightarrow> str \<Rightarrow> str list" where
  "split_on d [] = [[]]"
| "split_on d (c # cs) =
     (if c = d then [] # split_on d cs
      else (case split_on d cs of [] \<Rightarrow> [[c]] | w # ws \<Rightarrow> (c # w) # ws))"

text \<open>\<open>s.split()\<close> without a separator: runs of whitespace cut, empty pieces are
  discarded. \<open>cur\<close> is the piece being read.\<close>

fun split_ws :: "unicode \<Rightarrow> str \<Rightarrow> str \<Rightarrow> str list" where
  "split_ws U cur [] = (if cur = [] then [] else [cur])"
| "split_ws U cur (c # cs) =
     (if isspace U c then (if cur = [] then split_ws U [] cs else cur # split_ws U [] cs)
      else split_ws U (cur @ [c]) cs)"

definition split :: "unicode \<Rightarrow> str \<Rightarrow> str list" where
  "split U s = split_ws U [] s"

text \<open>\<open>pat in s\<close> is \<^const>\<open>sublist\<close>: \<open>s = ps @ pat @ ss\<close> for some \<open>ps\<close>, \<open>ss\<close>.\<close>

text \<open>\<open>s.replace(old, new)\<close>: the occurrences of \<open>old\<close> are found from the left and do
  not overlap; the scan resumes after each replaced occurrence. An empty \<open>old\<close> matches
  before every character and at the end.\<close>

function replace :: "str \<Rightarrow> str \<Rightarrow> str \<Rightarrow> str" where
  "replace s old new =
     (if old = [] then new @ concat (map (\<lambda>c. c # new) s)
      else if s = [] then []
      else if prefix old s then new @ replace (drop (length old) s) old new
      else hd s # replace (tl s) old new)"
  by pat_completeness auto
termination
  by (relation "measure (\<lambda>(s, old, new). length s)") auto

declare replace.simps [simp del]

section \<open>The record set\<close>

text \<open>One row of the DataFrame built by \<open>load_and_parse_pdfs\<close>.\<close>

record line_record =
  File :: str
  Page :: nat
  Line_Index :: nat
  Content :: str
  Full_Page_Text :: str

text \<open>
  What the PDF library hands to the loop. \<open>PdfReader(uploaded_file)\<close> either raises or
  gives the pages; \<open>page.extract_text()\<close> either raises, or returns \<open>None\<close> or a text.
  An exception carries its message.
\<close>

datatype exn = Exception string

type_synonym page = "exn + str option"

record uploaded_file =
  name :: str
  PdfReader :: "exn + page list"

text \<open>The rows of one page: \<open>text.split('\n')\<close>, enumerated from 0; a line is kept when
  its stripped form is non-empty, and the row holds the stripped line and the whole text.
  The line feed is the code point 10.\<close>

definition page_rows :: "unicode \<Rightarrow> str \<Rightarrow> nat \<Rightarrow> str \<Rightarrow> line_record list" where
  "page_rows U file_name i text =
     map (\<lambda>(line_idx, line).
            \<lparr>File = file_name, Page = i + 1, Line_Index = line_idx,
             Content = strip U line, Full_Page_Text = text\<rparr>)
         (filter (\<lambda>(line_idx, line). strip U line \<noteq> [])
                 (enumerate 0 (split_on 10 text)))"

text \<open>The loop over \<open>enumerate(pdf_reader.pages)\<close> inside the \<open>try\<close>. \<open>data\<close> is the
  list the rows are appended to. An exception leaves the loop with the rows appended so
  far; \<open>if text:\<close> skips \<open>None\<close> and the empty text.\<close>

fun parse_pages :: "unicode \<Rightarrow> str \<Rightarrow> nat \<Rightarrow> page list \<Rightarrow> line_record list
                      \<Rightarrow> exn option \<times> line_record list" where
  "parse_pages U file_name i [] data = (None, data)"
| "parse_pages U file_name i (Inl e # ps) data = (Some e, data)"
| "parse_pages U file_name i (Inr None # ps) data = parse_pages U file_name (i + 1) ps data"
| "parse_pages U file_name i (Inr (Some text) # ps) data =
     (if text \<noteq> [] then parse_pages U file_name (i + 1) ps (data @ page_rows U file_name i text)
      else parse_pages U file_name (i + 1) ps data)"

text \<open>The body of the loop over the uploaded files: \<open>try\<close> / \<open>except Exception\<close>. The
  state is the pair of the messages shown by \<open>st.error\<close> (file name and exception) and
  \<open>data\<close>.\<close>

definition parse_file :: "unicode \<Rightarrow> uploaded_file \<Rightarrow> (str \<times> exn) list \<times> line_record list
                            \<Rightarrow> (str \<times> exn) list \<times> line_record list" where
  "parse_file U uploaded st =
     (case st of (errors, data) \<Rightarrow>
       (case PdfReader uploaded of
          Inl e \<Rightarrow> (errors @ [(name uploaded, e)], data)
        | Inr pages \<Rightarrow>
            (case parse_pages U (name uploaded) 0 pages data of
               (None, data') \<Rightarrow> (errors, data')
             | (Some e, data') \<Rightarrow> (errors @ [(name uploaded, e)], data'))))"

fun parse_files :: "unicode \<Rightarrow> uploaded_file list \<Rightarrow> (str \<times> exn) list \<times> line_record list
                      \<Rightarrow> (str \<times> exn) list \<times> line_record list" where
  "parse_files U [] st = st"
| "parse_files U (f # fs) st = parse_files U fs (parse_file U f st)"

text \<open>\<open>load_and_parse_pdfs\<close> returns the DataFrame of \<open>data\<close>; the first component is
  what it reported on the way.\<close>

definition load_and_parse_pdfs :: "unicode \<Rightarrow> uploaded_file list
                                     \<Rightarrow> (str \<times> exn) list \<times> line_record list" where
  "load_and_parse_pdfs U uploaded_files = parse_files U uploaded_files ([], [])"

section \<open>The checklist filter\<close>

text \<open>
  The regular expressions the pattern of \<open>extract_action_items\<close> is built from: one
  literal character, \<open>\d\<close>, \<open>\d+\<close>, concatenation and alternation.
\<close>

datatype regex =
    Lit nat
  | Digit
  | Digits1
  | Seq regex regex
  | Alt regex regex
  | Eps

text \<open>A backtracking matcher: \<open>rests U r s\<close> lists what is left of \<open>s\<close> after each way
  of matching \<open>r\<close> at its start, in the order the engine tries them (\<open>\d+\<close> is greedy:
  the longest run first). The pattern is compiled with \<open>re.IGNORECASE\<close>, so a literal
  matches the characters \<open>ignorecase U\<close> gives it.\<close>

fun rests :: "unicode \<Rightarrow> regex \<Rightarrow> str \<Rightarrow> str list" where
  "rests U (Lit c) s = (case s of [] \<Rightarrow> [] | x # xs \<Rightarrow> if ignorecase U c x then [xs] else [])"
| "rests U Digit s = (case s of [] \<Rightarrow> [] | x # xs \<Rightarrow> if decimal U x then [xs] else [])"
| "rests U Digits1 s = map (\<lambda>n. drop n s) (rev [1 ..< Suc (length (takeWhile (decimal U) s))])"
| "rests U (Seq a b) s = concat (map (rests U b) (rests U a s))"
| "rests U (Alt a b) s = rests U a s @ rests U b s"
| "rests U Eps s = [s]"

text \<open>A literal word of the pattern.\<close>

fun word :: "str \<Rightarrow> regex" where
  "word [] = Eps"
| "word (c # cs) = Seq (Lit c) (word cs)"

text \<open>The glyphs of the pattern: U+2610 BALLOT BOX, U+2611 BALLOT BOX WITH CHECK,
  U+2713 CHECK MARK and U+2022 BULLET.\<close>

definition ballot_box :: nat where
  "ballot_box = 0x2610"

definition ballot_box_with_check :: nat where
  "ballot_box_with_check = 0x2611"

definition check_mark :: nat where
  "check_mark = 0x2713"

definition bullet :: nat where
  "bullet = 0x2022"

text \<open>The group after \<open>^\<close> in
  \<^verbatim>\<open>^(Step \d+|Action|<U+2610>|<U+2611>|<U+2713>|<U+2022>|Rule \d+|Metric)\<close>.\<close>

definition pattern :: regex where
  "pattern =
     Alt (Seq (word (lit ''Step '')) Digits1)
    (Alt (word (lit ''Action''))
    (Alt (Lit ballot_box)
    (Alt (Lit ballot_box_with_check)
    (Alt (Lit check_mark)
    (Alt (Lit bullet)
    (Alt (Seq (word (lit ''Rule '')) Digits1)
         (word (lit ''Metric''))))))))"

text \<open>\<open>Series.str.contains(pattern, case=False, regex=True)\<close> is \<open>re.search\<close> with
  \<open>re.IGNORECASE\<close>. Without \<open>re.MULTILINE\<close> the anchor \<open>^\<close> holds at position 0 only, so
  the search succeeds exactly when the group matches at the start of the string.\<close>

definition str_contains_regex :: "unicode \<Rightarrow> regex \<Rightarrow> str \<Rightarrow> bool" where
  "str_contains_regex U r s \<longleftrightarrow> rests U r s \<noteq> []"

definition extract_action_items :: "unicode \<Rightarrow> line_record list \<Rightarrow> line_record list" where
  "extract_action_items U df = filter (\<lambda>row. str_contains_regex U pattern (Content row)) df"

section \<open>Global search\<close>

text \<open>\<open>Series.str.contains(query, case=False, regex=False)\<close> compares in upper case:
  \<open>query.upper() in x.upper()\<close>.\<close>

definition str_contains :: "unicode \<Rightarrow> str \<Rightarrow> str \<Rightarrow> bool" where
  "str_contains U pat x \<longleftrightarrow> sublist (upper U pat) (upper U x)"

text \<open>The search of the mode "Global Search". Under \<open>if query:\<close> the rows are selected
  by the mask; with an empty query nothing is selected or shown.\<close>

definition search :: "unicode \<Rightarrow> line_record list \<Rightarrow> str \<Rightarrow> line_record list" where
  "search U df query =
     (if query \<noteq> [] then filter (\<lambda>row. str_contains U query (Content row)) df else [])"

text \<open>The marker \<open>f"**{query}**"\<close> and the three replacements applied to a row's
  content.\<close>

definition marker :: "str \<Rightarrow> str" where
  "marker query = lit ''**'' @ query @ lit ''**''"

definition highlight :: "unicode \<Rightarrow> str \<Rightarrow> str \<Rightarrow> str" where
  "highlight U content query =
     (let highlighted_text = replace content query (marker query);
          highlighted_text = replace highlighted_text (lower U query) (marker query);
          highlighted_text = replace highlighted_text (capitalize U query) (marker query)
      in highlighted_text)"

section \<open>Chat / Query\<close>

text \<open>\<open>DataFrame.drop_duplicates()\<close> keeps the first of equal rows, in order.\<close>

fun drop_duplicates :: "'a list \<Rightarrow> 'a list" where
  "drop_duplicates [] = []"
| "drop_duplicates (x # xs) = x # drop_duplicates (filter (\<lambda>y. y \<noteq> x) xs)"

text \<open>\<open>df[['File', 'Page', 'Full_Page_Text']].drop_duplicates()\<close>.\<close>

definition unique_pages :: "line_record list \<Rightarrow> (str \<times> nat \<times> str) list" where
  "unique_pages df =
     drop_duplicates (map (\<lambda>row. (File row, Page row, Full_Page_Text row)) df)"

record result =
  res_File :: str
  res_Page :: nat
  Text :: str
  Score :: nat

text \<open>The loop over \<open>query_tokens\<close> for one page: \<open>score\<close> starts at 0 and grows by one
  for each token that is \<open>in text_lower\<close>.\<close>

fun score_loop :: "str list \<Rightarrow> str \<Rightarrow> nat \<Rightarrow> nat" where
  "score_loop [] text_lower score = score"
| "score_loop (token # tokens) text_lower score =
     (if sublist token text_lower then score_loop tokens text_lower (score + 1)
      else score_loop tokens text_lower score)"

text \<open>The loop over \<open>unique_pages\<close>, appending to \<open>results\<close> the pages that score.\<close>

fun score_pages :: "unicode \<Rightarrow> str list \<Rightarrow> (str \<times> nat \<times> str) list \<Rightarrow> result list
                      \<Rightarrow> result list" where
  "score_pages U query_tokens [] results = results"
| "score_pages U query_tokens ((f, p, t) # rows) results =
     (let score = score_loop query_tokens (lower U t) 0
      in if score > 0
         then score_pages U query_tokens rows
                (results @ [\<lparr>res_File = f, res_Page = p, Text = t, Score = score\<rparr>])
         else score_pages U query_tokens rows results)"

text \<open>\<open>sorted(results, key=lambda x: x['Score'], reverse=True)\<close>: a stable sort, and
  with \<open>reverse=True\<close> the list is reversed, sorted and reversed again, so that rows of
  equal score keep their order.\<close>

definition sorted_by_score_reverse :: "result list \<Rightarrow> result list" where
  "sorted_by_score_reverse results = rev (sort_key Score (rev results))"

text \<open>The ranking of the mode "Chat/Query". Under \<open>if user_query:\<close> the pages are scored
  and sorted; with an empty query nothing is computed or shown. (The page shows the
  first three of the list.)\<close>

definition rank :: "unicode \<Rightarrow> line_record list \<Rightarrow> str \<Rightarrow> result list" where
  "rank U df user_query =
     (if user_query \<noteq> []
      then sorted_by_score_reverse
             (score_pages U (split U (lower U user_query)) (unique_pages df) [])
      else [])"

section \<open>The properties in the specification's words\<close>

subsection \<open>The record set\<close>

text \<open>Rows of the same file and page carry the same page text.\<close>

definition page_text_consistent :: "line_record list \<Rightarrow> bool" where
  "page_text_consistent df \<longleftrightarrow>
     (\<forall>r1 \<in> set df. \<forall>r2 \<in> set df.
        File r1 = File r2 \<and> Page r1 = Page r2 \<longrightarrow> Full_Page_Text r1 = Full_Page_Text r2)"

text \<open>The page text of a row is what \<open>extract_text\<close> returned for the page of that
  number in an uploaded file of that name.\<close>

definition extracted_text :: "uploaded_file list \<Rightarrow> line_record \<Rightarrow> bool" where
  "extracted_text uploaded_files r \<longleftrightarrow>
     (\<exists>f \<in> set uploaded_files. name f = File r \<and>
        (case PdfReader f of
           Inl e \<Rightarrow> False
         | Inr pages \<Rightarrow> 0 < Page r \<and> Page r \<le> length pages \<and>
                        pages ! (Page r - 1) = Inr (Some (Full_Page_Text r))))"

subsection \<open>The checklist filter\<close>

text \<open>The content starts with the marker word: character by character, each character
  of the word is matched without regard to case, as \<open>re.IGNORECASE\<close> matches it.\<close>

definition starts_with_ignoring_case :: "unicode \<Rightarrow> str \<Rightarrow> str \<Rightarrow> bool" where
  "starts_with_ignoring_case U marker_word content \<longleftrightarrow>
     length marker_word \<le> length content \<and>
     list_all2 (ignorecase U) marker_word (take (length marker_word) content)"

text \<open>After the marker word the content goes on with at least one digit.\<close>

definition digits_after :: "unicode \<Rightarrow> str \<Rightarrow> str \<Rightarrow> bool" where
  "digits_after U marker_word content \<longleftrightarrow>
     takeWhile (decimal U) (drop (length marker_word) content) \<noteq> []"

text \<open>The content begins with one of the markers; a glyph is taken as it is.\<close>

definition begins_with_marker :: "unicode \<Rightarrow> str \<Rightarrow> bool" where
  "begins_with_marker U content \<longleftrightarrow>
     (starts_with_ignoring_case U (lit ''Step '') content \<and> digits_after U (lit ''Step '') content)
   \<or> starts_with_ignoring_case U (lit ''Action'') content
   \<or> prefix [ballot_box] content
   \<or> prefix [ballot_box_with_check] content
   \<or> prefix [check_mark] content
   \<or> prefix [bullet] content
   \<or> (starts_with_ignoring_case U (lit ''Rule '') content \<and> digits_after U (lit ''Rule '') content)
   \<or> starts_with_ignoring_case U (lit ''Metric'') content"

subsection \<open>The search and the highlighting\<close>



text \<open>The asterisk, and a string of asterisks, as the marker puts them around the
  query.\<close>

definition asterisk :: nat where
  "asterisk = 42"

definition stars :: "str \<Rightarrow> bool" where
  "stars s \<longleftrightarrow> set s \<subseteq> {asterisk}"





subsection \<open>The ranking\<close>

text \<open>Cutting a string at every character that satisfies \<open>P\<close>; empty pieces are kept.\<close>

fun pieces :: "(nat \<Rightarrow> bool) \<Rightarrow> str \<Rightarrow> str list" where
  "pieces P [] = [[]]"
| "pieces P (c # cs) =
     (if P c then [] # pieces P cs
      else (case pieces P cs of [] \<Rightarrow> [[c]] | w # ws \<Rightarrow> (c # w) # ws))"

text \<open>The tokens of a query as the specification words them: the lowercased query cut at
  whitespace, empty tokens discarded.\<close>

definition query_tokens :: "unicode \<Rightarrow> str \<Rightarrow> str list" where
  "query_tokens U query = filter (\<lambda>w. w \<noteq> []) (pieces (isspace U) (lower U query))"

text \<open>The number of tokens of the query, counted as often as the query has them, that
  occur in the lowercased page text.\<close>

definition token_count :: "unicode \<Rightarrow> str \<Rightarrow> str \<Rightarrow> nat" where
  "token_count U query full_page_text =
     length (filter (\<lambda>token. sublist token (lower U full_page_text)) (query_tokens U query))"

definition page_result :: "unicode \<Rightarrow> str \<Rightarrow> str \<times> nat \<times> str \<Rightarrow> result" where
  "page_result U query pg =
     (case pg of (f, p, t) \<Rightarrow>
        \<lparr>res_File = f, res_Page = p, Text = t, Score = token_count U query t\<rparr>)"

text \<open>The page a result stands for, and the position of the first row of a page in the
  record set.\<close>

definition page_key :: "result \<Rightarrow> str \<times> nat \<times> str" where
  "page_key r = (res_File r, res_Page r, Text r)"

definition first_row :: "line_record list \<Rightarrow> str \<times> nat \<times> str \<Rightarrow> nat" where
  "first_row df pg =
     length (takeWhile (\<lambda>row. (File row, Page row, Full_Page_Text row) \<noteq> pg) df)"

section \<open>Example inputs\<close>

text \<open>
  The theorems are stated for every table \<open>U\<close>. To compute examples, \<open>ascii\<close> is one such
  table; it is not Python's, but a cut of it. Whitespace is Python's in full: the code
  points for which \<open>str.isspace\<close> holds. Letters and digits are the ASCII ones only, and
  every other character is left as it is and is no digit. On a text made of ASCII
  characters, whitespace and characters without case, such as the four glyphs of the
  pattern, \<open>ascii\<close> gives what Python gives, and the examples are written with such texts
  only.
\<close>

definition whitespace :: "nat \<Rightarrow> bool" where
  "whitespace c \<longleftrightarrow>
     (9 \<le> c \<and> c \<le> 13) \<or> (28 \<le> c \<and> c \<le> 32) \<or> c = 0x85 \<or> c = 0xA0 \<or> c = 0x1680
     \<or> (0x2000 \<le> c \<and> c \<le> 0x200A) \<or> c = 0x2028 \<or> c = 0x2029 \<or> c = 0x202F
     \<or> c = 0x205F \<or> c = 0x3000"

definition ascii_lower :: "nat \<Rightarrow> nat" where
  "ascii_lower c = (if 65 \<le> c \<and> c \<le> 90 then c + 32 else c)"

definition ascii_upper :: "nat \<Rightarrow> nat" where
  "ascii_upper c = (if 97 \<le> c \<and> c \<le> 122 then c - 32 else c)"

definition ascii :: unicode where
  "ascii =
     \<lparr>isspace = whitespace,
      decimal = (\<lambda>c. 48 \<le> c \<and> c \<le> 57),
      ignorecase = (\<lambda>p c. ascii_lower p = ascii_lower c),
      lower = map ascii_lower,
      upper = map ascii_upper,
      capitalize = (\<lambda>s. case s of [] \<Rightarrow> [] | c # cs \<Rightarrow> ascii_upper c # map ascii_lower cs)\<rparr>"

text \<open>A file with one page, and a file that cannot be read.\<close>

definition valid_doc :: uploaded_file where
  "valid_doc = \<lparr>name = lit ''notes.pdf'', PdfReader = Inr [Inr (Some (lit ''Step 1: do X''))]\<rparr>"

definition corrupt_doc :: uploaded_file where
  "corrupt_doc = \<lparr>name = lit ''broken.pdf'', PdfReader = Inl (Exception ''EOF marker not found'')\<rparr>"

text \<open>Two uploads of the same name, and a page with a blank line and padded lines.\<close>

definition first_upload :: uploaded_file where
  "first_upload = \<lparr>name = lit ''notes.pdf'', PdfReader = Inr [Inr (Some (lit ''morning plan''))]\<rparr>"

definition second_upload :: uploaded_file where
  "second_upload = \<lparr>name = lit ''notes.pdf'', PdfReader = Inr [Inr (Some (lit ''evening plan''))]\<rparr>"

definition checklist_text :: str where
  "checklist_text = lit ''Step 1: do X'' @ [10] @ lit ''   '' @ [10] @ lit ''  See Step 1 above ''"

definition checklist_doc :: uploaded_file where
  "checklist_doc = \<lparr>name = lit ''plan.pdf'', PdfReader = Inr [Inr None, Inr (Some checklist_text)]\<rparr>"

text \<open>The two pages of the ranking example, and four pages of which two tie.\<close>

definition two_pages_doc :: uploaded_file where
  "two_pages_doc =
     \<lparr>name = lit ''habits.pdf'',
      PdfReader = Inr [Inr (Some (lit ''focus and dopamine drive habit'')),
                       Inr (Some (lit ''unrelated content only''))]\<rparr>"

definition three_pages_doc :: uploaded_file where
  "three_pages_doc =
     \<lparr>name = lit ''review.pdf'',
      PdfReader = Inr [Inr (Some (lit ''one habit'')),
                       Inr (Some (lit ''Dopamine and habit'')),
                       Inr (Some (lit ''no match here'')),
                       Inr (Some (lit ''habit again''))]\<rparr>"



section \<open>Facts about strings\<close>

text \<open>Unfolding these evaluates the example tables and the literals.\<close>

lemmas ascii_eval = ascii_def whitespace_def ascii_lower_def ascii_upper_def lit_def

lemmas load_eval = load_and_parse_pdfs_def parse_file_def page_rows_def strip_def

lemma strip_not_blank: "strip U s \<noteq> [] \<Longrightarrow> \<not> list_all (isspace U) (strip U s)"
proof -
  assume ne: "strip U s \<noteq> []"
  define u where "u = dropWhile (isspace U) (rev (dropWhile (isspace U) s))"
  have u: "u \<noteq> []" using ne by (simp add: strip_def u_def)
  then have "\<not> isspace U (hd u)" unfolding u_def by (rule hd_dropWhile)
  moreover have "hd u \<in> set (strip U s)" using u by (simp add: strip_def u_def [symmetric])
  ultimately show ?thesis by (auto simp: list_all_iff)
qed

lemma strip_idem: "strip U (strip U s) = strip U s"
proof -
  define t where "t = dropWhile (isspace U) s"
  define u where "u = dropWhile (isspace U) (rev t)"
  have s: "strip U s = rev u" by (simp add: strip_def u_def t_def)
  show ?thesis
  proof (cases "u = []")
    case True
    then show ?thesis unfolding s by (simp add: strip_def)
  next
    case False
    then have hu: "\<not> isspace U (hd u)" unfolding u_def by (rule hd_dropWhile)
    from False have t: "t \<noteq> []" by (auto simp: u_def)
    then have ht: "\<not> isspace U (hd t)" unfolding t_def by (rule hd_dropWhile)
    have "rev t = takeWhile (isspace U) (rev t) @ u" by (simp add: u_def)
    then have "last (rev t) = last u" using False by (metis last_appendR)
    then have lu: "\<not> isspace U (last u)" using ht t by (simp add: last_rev)
    have 1: "dropWhile (isspace U) (rev u) = rev u"
      using lu False by (cases "rev u") (auto simp: hd_rev [symmetric])
    have 2: "dropWhile (isspace U) u = u"
      using hu False by (cases u) auto
    show ?thesis unfolding s by (simp add: strip_def 1 2)
  qed
qed

section \<open>Corpus building: resilience and invariants\<close>

lemma page_rows_Content:
  "r \<in> set (page_rows U file_name i text) \<Longrightarrow>
     Content r \<noteq> [] \<and> strip U (Content r) = Content r"
  by (auto simp: page_rows_def strip_idem)

lemma page_rows_fields:
  "r \<in> set (page_rows U file_name i text) \<Longrightarrow>
     File r = file_name \<and> Page r = i + 1 \<and> Full_Page_Text r = text"
  by (auto simp: page_rows_def)

lemma parse_pages_append:
  "parse_pages U file_name i ps data =
     (fst (parse_pages U file_name i ps []), data @ snd (parse_pages U file_name i ps []))"
proof (induction ps arbitrary: i data)
  case Nil
  show ?case by simp
next
  case (Cons p ps)
  define rest where "rest = parse_pages U file_name (Suc i) ps []"
  have IH: "parse_pages U file_name (Suc i) ps d = (fst rest, d @ snd rest)" for d
    unfolding rest_def by (rule Cons.IH)
  show ?case
  proof (cases p)
    case (Inl e)
    then show ?thesis by simp
  next
    case (Inr t)
    show ?thesis
    proof (cases t)
      case None
      with Inr show ?thesis by (simp add: IH)
    next
      case (Some tx)
      with Inr show ?thesis by (simp add: IH)
    qed
  qed
qed

lemma parse_file_append:
  "parse_file U f (errors, data) =
     (errors @ fst (parse_file U f ([], [])), data @ snd (parse_file U f ([], [])))"
proof (cases "PdfReader f")
  case (Inl e)
  then show ?thesis by (simp add: parse_file_def)
next
  case (Inr pages)
  obtain e rows where r: "parse_pages U (name f) 0 pages [] = (e, rows)"
    by (cases "parse_pages U (name f) 0 pages []")
  have "parse_pages U (name f) 0 pages data = (e, data @ rows)"
    using parse_pages_append [of U "name f" 0 pages data] r by simp
  with Inr r show ?thesis by (cases e) (simp_all add: parse_file_def)
qed

lemma parse_files_append:
  "parse_files U fs (errors, data) =
     (errors @ fst (parse_files U fs ([], [])), data @ snd (parse_files U fs ([], [])))"
proof (induction fs arbitrary: errors data)
  case Nil
  show ?case by simp
next
  case (Cons f fs)
  define one where "one = parse_file U f ([], [])"
  define rest where "rest = parse_files U fs ([], [])"
  have IH: "parse_files U fs (e, d) = (e @ fst rest, d @ snd rest)" for e d
    unfolding rest_def by (rule Cons.IH)
  have one: "parse_file U f (e, d) = (e @ fst one, d @ snd one)" for e d
    unfolding one_def by (rule parse_file_append)
  have "parse_files U (f # fs) (e, d) = ((e @ fst one) @ fst rest, (d @ snd one) @ snd rest)" for e d
    by (simp add: one IH)
  from this [of errors data] this [of "[]" "[]"] show ?case by simp
qed

lemma load_and_parse_pdfs_append:
  "load_and_parse_pdfs U (fs @ gs) =
     (fst (load_and_parse_pdfs U fs) @ fst (load_and_parse_pdfs U gs),
      snd (load_and_parse_pdfs U fs) @ snd (load_and_parse_pdfs U gs))"
proof -
  have "parse_files U (fs @ gs) st = parse_files U gs (parse_files U fs st)" for st
    by (induction fs arbitrary: st) simp_all
  then have "load_and_parse_pdfs U (fs @ gs) = parse_files U gs (parse_files U fs ([], []))"
    by (simp add: load_and_parse_pdfs_def)
  also have "\<dots> = parse_files U gs (fst (parse_files U fs ([], [])), snd (parse_files U fs ([], [])))"
    by simp
  also have "\<dots> = (fst (parse_files U fs ([], [])) @ fst (parse_files U gs ([], [])),
                   snd (parse_files U fs ([], [])) @ snd (parse_files U gs ([], [])))"
    by (rule parse_files_append)
  finally show ?thesis by (simp add: load_and_parse_pdfs_def)
qed

lemma load_and_parse_pdfs_Cons:
  "load_and_parse_pdfs U (f # fs) =
     (fst (load_and_parse_pdfs U [f]) @ fst (load_and_parse_pdfs U fs),
      snd (load_and_parse_pdfs U [f]) @ snd (load_and_parse_pdfs U fs))"
  using load_and_parse_pdfs_append [of U "[f]" fs] by simp

lemma load_and_parse_pdfs_single:
  "load_and_parse_pdfs U [f] = parse_file U f ([], [])"
  by (simp add: load_and_parse_pdfs_def)

text \<open>
  Claim C8. A document that cannot be parsed at all (\<open>PdfReader\<close> raises) is reported
  with its name and the cause, adds no row, and leaves the rows of every other document
  of the batch as they are: the batch gives the reports and rows of the documents before
  it, then its report, then the reports and rows of the documents after it, and the rows
  are those of the batch without it.
\<close>

theorem batch_resilience:
  assumes "PdfReader bad = Inl e"
  shows "load_and_parse_pdfs U (before @ [bad] @ after) =
           (fst (load_and_parse_pdfs U before) @ [(name bad, e)] @ fst (load_and_parse_pdfs U after),
            snd (load_and_parse_pdfs U before) @ snd (load_and_parse_pdfs U after))
       \<and> snd (load_and_parse_pdfs U (before @ [bad] @ after))
           = snd (load_and_parse_pdfs U (before @ after))"
proof -
  have b: "load_and_parse_pdfs U [bad] = ([(name bad, e)], [])"
    using assms by (simp add: load_and_parse_pdfs_single parse_file_def)
  have "load_and_parse_pdfs U (before @ [bad] @ after) =
           (fst (load_and_parse_pdfs U before) @ [(name bad, e)] @ fst (load_and_parse_pdfs U after),
            snd (load_and_parse_pdfs U before) @ snd (load_and_parse_pdfs U after))"
    unfolding load_and_parse_pdfs_append [of U before "[bad] @ after"]
      load_and_parse_pdfs_append [of U "[bad]" after] b by simp
  moreover from this
  have "snd (load_and_parse_pdfs U (before @ [bad] @ after))
          = snd (load_and_parse_pdfs U (before @ after))"
    unfolding load_and_parse_pdfs_append [of U before after] by simp
  ultimately show ?thesis by simp
qed

theorem batch_resilience_witness:
  "PdfReader corrupt_doc = Inl (Exception ''EOF marker not found'') \<and>
   load_and_parse_pdfs ascii ([valid_doc] @ [corrupt_doc] @ [valid_doc]) =
     ([(lit ''broken.pdf'', Exception ''EOF marker not found'')],
      [\<lparr>File = lit ''notes.pdf'', Page = 1, Line_Index = 0,
         Content = lit ''Step 1: do X'', Full_Page_Text = lit ''Step 1: do X''\<rparr>,
       \<lparr>File = lit ''notes.pdf'', Page = 1, Line_Index = 0,
         Content = lit ''Step 1: do X'', Full_Page_Text = lit ''Step 1: do X''\<rparr>])"
proof -
  have h: "PdfReader corrupt_doc = Inl (Exception ''EOF marker not found'')"
    by (simp add: corrupt_doc_def)
  have v: "load_and_parse_pdfs ascii [valid_doc] = ([], [\<lparr>File = lit ''notes.pdf'', Page = 1,
         Line_Index = 0, Content = lit ''Step 1: do X'', Full_Page_Text = lit ''Step 1: do X''\<rparr>])"
    by (simp add: valid_doc_def load_eval ascii_eval)
  from batch_resilience [OF h, of ascii "[valid_doc]" "[valid_doc]"] h show ?thesis
    unfolding v by (simp add: corrupt_doc_def)
qed

lemma parse_pages_rows:
  "r \<in> set (snd (parse_pages U file_name i ps [])) \<Longrightarrow>
     \<exists>j tx. j < length ps \<and> ps ! j = Inr (Some tx) \<and> r \<in> set (page_rows U file_name (i + j) tx)"
proof (induction ps arbitrary: i)
  case Nil
  then show ?case by simp
next
  case (Cons p ps)
  have step: "\<exists>j tx. j < length (p # ps) \<and> (p # ps) ! j = Inr (Some tx)
                 \<and> r \<in> set (page_rows U file_name (i + j) tx)"
    if "r \<in> set (snd (parse_pages U file_name (Suc i) ps []))"
  proof -
    from Cons.IH [OF that] obtain j tx where
      "j < length ps" "ps ! j = Inr (Some tx)" "r \<in> set (page_rows U file_name (Suc i + j) tx)"
      by blast
    then have "Suc j < length (p # ps) \<and> (p # ps) ! Suc j = Inr (Some tx)
                 \<and> r \<in> set (page_rows U file_name (i + Suc j) tx)"
      by simp
    then show ?thesis by blast
  qed
  show ?case
  proof (cases p)
    case (Inl e)
    with Cons.prems show ?thesis by simp
  next
    case (Inr t)
    show ?thesis
    proof (cases t)
      case None
      with Inr Cons.prems have "r \<in> set (snd (parse_pages U file_name (Suc i) ps []))" by simp
      then show ?thesis by (rule step)
    next
      case (Some tx)
      show ?thesis
      proof (cases "tx = []")
        case True
        with Some Inr Cons.prems have "r \<in> set (snd (parse_pages U file_name (Suc i) ps []))"
          by simp
        then show ?thesis by (rule step)
      next
        case False
        have "parse_pages U file_name (Suc i) ps (page_rows U file_name i tx) =
                (fst (parse_pages U file_name (Suc i) ps []),
                 page_rows U file_name i tx @ snd (parse_pages U file_name (Suc i) ps []))"
          by (rule parse_pages_append)
        with False Some Inr Cons.prems
        have "r \<in> set (page_rows U file_name i tx)
                \<or> r \<in> set (snd (parse_pages U file_name (Suc i) ps []))"
          by auto
        then show ?thesis
        proof
          assume "r \<in> set (page_rows U file_name i tx)"
          with Some Inr have "0 < length (p # ps) \<and> (p # ps) ! 0 = Inr (Some tx)
                 \<and> r \<in> set (page_rows U file_name (i + 0) tx)" by simp
          then show ?thesis by blast
        qed (rule step)
      qed
    qed
  qed
qed

lemma parse_file_rows:
  assumes "r \<in> set (snd (parse_file U f ([], [])))"
  shows "\<exists>pages j tx. PdfReader f = Inr pages \<and> j < length pages \<and> pages ! j = Inr (Some tx)
           \<and> r \<in> set (page_rows U (name f) j tx)"
proof (cases "PdfReader f")
  case (Inl e)
  with assms show ?thesis by (simp add: parse_file_def)
next
  case (Inr pages)
  with assms have "r \<in> set (snd (parse_pages U (name f) 0 pages []))"
    by (auto simp: parse_file_def split: prod.splits option.splits)
  from parse_pages_rows [OF this] Inr show ?thesis by auto
qed

lemma load_and_parse_pdfs_rows:
  "r \<in> set (snd (load_and_parse_pdfs U fs)) \<Longrightarrow>
     \<exists>f \<in> set fs. r \<in> set (snd (parse_file U f ([], [])))"
proof (induction fs)
  case Nil
  then show ?case by (simp add: load_and_parse_pdfs_def)
next
  case (Cons f fs)
  from Cons.prems
  have "r \<in> set (snd (load_and_parse_pdfs U [f])) \<or> r \<in> set (snd (load_and_parse_pdfs U fs))"
    unfolding load_and_parse_pdfs_Cons [of U f fs] by simp
  then show ?case
  proof
    assume "r \<in> set (snd (load_and_parse_pdfs U [f]))"
    then show ?thesis by (simp add: load_and_parse_pdfs_single)
  next
    assume "r \<in> set (snd (load_and_parse_pdfs U fs))"
    from Cons.IH [OF this] show ?thesis by auto
  qed
qed

lemma row_origin:
  assumes "r \<in> set (snd (load_and_parse_pdfs U fs))"
  shows "\<exists>f pages j. f \<in> set fs \<and> name f = File r \<and> PdfReader f = Inr pages \<and> j < length pages
            \<and> Page r = j + 1 \<and> pages ! j = Inr (Some (Full_Page_Text r))
            \<and> Content r \<noteq> [] \<and> strip U (Content r) = Content r"
proof -
  from load_and_parse_pdfs_rows [OF assms] obtain f where
    f: "f \<in> set fs" "r \<in> set (snd (parse_file U f ([], [])))" by blast
  from parse_file_rows [OF f(2)] obtain pages j tx where
    p: "PdfReader f = Inr pages" "j < length pages" "pages ! j = Inr (Some tx)"
       "r \<in> set (page_rows U (name f) j tx)" by blast
  from page_rows_fields [OF p(4)] page_rows_Content [OF p(4)] f(1) p(1-3)
  show ?thesis by auto
qed

lemma checklist_rows:
  "snd (load_and_parse_pdfs ascii [checklist_doc]) =
     [\<lparr>File = lit ''plan.pdf'', Page = 2, Line_Index = 0, Content = lit ''Step 1: do X'',
        Full_Page_Text = checklist_text\<rparr>,
      \<lparr>File = lit ''plan.pdf'', Page = 2, Line_Index = 2, Content = lit ''See Step 1 above'',
        Full_Page_Text = checklist_text\<rparr>]"
  by (simp add: checklist_doc_def checklist_text_def load_eval ascii_eval)

text \<open>
  Claim C9. In every record set built by \<open>load_and_parse_pdfs\<close>, the content of every row
  is non-empty, is not made of whitespace only, and is trimmed (stripping it again changes
  nothing). Whitespace is whatever \<open>str.strip\<close> takes for it: the statement holds for
  every table \<open>U\<close>.
\<close>

theorem content_non_empty:
  "\<forall>r \<in> set (snd (load_and_parse_pdfs U uploaded_files)).
     Content r \<noteq> [] \<and> \<not> list_all (isspace U) (Content r) \<and> strip U (Content r) = Content r"
proof
  fix r
  assume "r \<in> set (snd (load_and_parse_pdfs U uploaded_files))"
  from row_origin [OF this] have c: "Content r \<noteq> []" "strip U (Content r) = Content r" by auto
  then have "strip U (Content r) \<noteq> []" by simp
  then have "\<not> list_all (isspace U) (strip U (Content r))" by (rule strip_not_blank)
  with c show "Content r \<noteq> [] \<and> \<not> list_all (isspace U) (Content r)
                 \<and> strip U (Content r) = Content r"
    by simp
qed

theorem content_non_empty_witness:
  "snd (load_and_parse_pdfs ascii [checklist_doc]) =
     [\<lparr>File = lit ''plan.pdf'', Page = 2, Line_Index = 0, Content = lit ''Step 1: do X'',
        Full_Page_Text = checklist_text\<rparr>,
      \<lparr>File = lit ''plan.pdf'', Page = 2, Line_Index = 2, Content = lit ''See Step 1 above'',
        Full_Page_Text = checklist_text\<rparr>]
   \<and> list_all (\<lambda>r. Content r \<noteq> [] \<and> \<not> list_all (isspace ascii) (Content r)
                  \<and> strip ascii (Content r) = Content r)
        (snd (load_and_parse_pdfs ascii [checklist_doc]))
   \<and> snd (load_and_parse_pdfs ascii
        [\<lparr>name = lit ''blank.pdf'',
          PdfReader = Inr [Inr (Some ([0xA0, 0x3000] @ [10] @ [0x2003] @ lit ''x'' @ [0x85]))]\<rparr>]) =
     [\<lparr>File = lit ''blank.pdf'', Page = 1, Line_Index = 1, Content = lit ''x'',
        Full_Page_Text = [0xA0, 0x3000] @ [10] @ [0x2003] @ lit ''x'' @ [0x85]\<rparr>]"
proof -
  have r: "snd (load_and_parse_pdfs ascii [checklist_doc]) =
     [\<lparr>File = lit ''plan.pdf'', Page = 2, Line_Index = 0, Content = lit ''Step 1: do X'',
        Full_Page_Text = checklist_text\<rparr>,
      \<lparr>File = lit ''plan.pdf'', Page = 2, Line_Index = 2, Content = lit ''See Step 1 above'',
        Full_Page_Text = checklist_text\<rparr>]"
    by (rule checklist_rows)
  have b: "snd (load_and_parse_pdfs ascii
        [\<lparr>name = lit ''blank.pdf'',
          PdfReader = Inr [Inr (Some ([0xA0, 0x3000] @ [10] @ [0x2003] @ lit ''x'' @ [0x85]))]\<rparr>]) =
     [\<lparr>File = lit ''blank.pdf'', Page = 1, Line_Index = 1, Content = lit ''x'',
        Full_Page_Text = [0xA0, 0x3000] @ [10] @ [0x2003] @ lit ''x'' @ [0x85]\<rparr>]"
    by (simp add: load_eval ascii_eval)
  from content_non_empty [of ascii "[checklist_doc]"]
  have "list_all (\<lambda>r. Content r \<noteq> [] \<and> \<not> list_all (isspace ascii) (Content r)
                  \<and> strip ascii (Content r) = Content r)
        (snd (load_and_parse_pdfs ascii [checklist_doc]))"
    unfolding list_all_iff by blast
  with r b show ?thesis by (intro conjI)
qed

text \<open>
  Claim C10, as the code has it. Two uploaded files may carry the same name; their rows
  then share \<open>File\<close> and \<open>Page\<close> and differ in the page text.
\<close>

theorem page_text_consistency_counterexample:
  "\<not> page_text_consistent (snd (load_and_parse_pdfs ascii [first_upload, second_upload]))"
proof -
  have "load_and_parse_pdfs ascii [first_upload, second_upload] =
    ([], [\<lparr>File = lit ''notes.pdf'', Page = 1, Line_Index = 0, Content = lit ''morning plan'',
            Full_Page_Text = lit ''morning plan''\<rparr>,
          \<lparr>File = lit ''notes.pdf'', Page = 1, Line_Index = 0, Content = lit ''evening plan'',
            Full_Page_Text = lit ''evening plan''\<rparr>])"
    by (simp add: first_upload_def second_upload_def load_eval ascii_eval)
  then show ?thesis by (simp add: page_text_consistent_def lit_def)
qed

text \<open>
  Claim C10, amended. In every built record set the page text of a row is the text
  extracted, whole and as it is, for the page of that number in an uploaded file of that
  name; and when the uploaded files have pairwise distinct names, the rows that share
  file and page carry the same page text.
\<close>

theorem page_text_consistency_distinct_names:
  "(\<forall>r \<in> set (snd (load_and_parse_pdfs U uploaded_files)). extracted_text uploaded_files r)
   \<and> (distinct (map name uploaded_files) \<longrightarrow>
        page_text_consistent (snd (load_and_parse_pdfs U uploaded_files)))"
proof (intro conjI impI)
  assume d: "distinct (map name uploaded_files)"
  show "page_text_consistent (snd (load_and_parse_pdfs U uploaded_files))"
    unfolding page_text_consistent_def
  proof (intro ballI impI)
    fix r1 r2
    assume r1: "r1 \<in> set (snd (load_and_parse_pdfs U uploaded_files))"
      and r2: "r2 \<in> set (snd (load_and_parse_pdfs U uploaded_files))"
      and eq: "File r1 = File r2 \<and> Page r1 = Page r2"
    from row_origin [OF r1] obtain f1 pages1 j1 where
      1: "f1 \<in> set uploaded_files" "name f1 = File r1" "PdfReader f1 = Inr pages1"
         "Page r1 = j1 + 1" "pages1 ! j1 = Inr (Some (Full_Page_Text r1))" by blast
    from row_origin [OF r2] obtain f2 pages2 j2 where
      2: "f2 \<in> set uploaded_files" "name f2 = File r2" "PdfReader f2 = Inr pages2"
         "Page r2 = j2 + 1" "pages2 ! j2 = Inr (Some (Full_Page_Text r2))" by blast
    from d have "inj_on name (set uploaded_files)" by (simp add: distinct_map)
    moreover from 1(2) 2(2) eq have "name f1 = name f2" by simp
    ultimately have "f1 = f2" using 1(1) 2(1) by (rule inj_onD)
    with 1 2 eq show "Full_Page_Text r1 = Full_Page_Text r2" by simp
  qed
next
  show "\<forall>r \<in> set (snd (load_and_parse_pdfs U uploaded_files)). extracted_text uploaded_files r"
  proof
    fix r
    assume "r \<in> set (snd (load_and_parse_pdfs U uploaded_files))"
    from row_origin [OF this] obtain f pages j where
      "f \<in> set uploaded_files" "name f = File r" "PdfReader f = Inr pages" "j < length pages"
      "Page r = j + 1" "pages ! j = Inr (Some (Full_Page_Text r))" by blast
    then show "extracted_text uploaded_files r"
      unfolding extracted_text_def by (intro bexI [of _ f]) auto
  qed
qed

theorem page_text_consistency_witness:
  "distinct (map name [checklist_doc, valid_doc, corrupt_doc]) \<and>
   page_text_consistent (snd (load_and_parse_pdfs ascii [checklist_doc, valid_doc, corrupt_doc])) \<and>
   length (snd (load_and_parse_pdfs ascii [checklist_doc, valid_doc, corrupt_doc])) = 3 \<and>
   list_all (extracted_text [checklist_doc, valid_doc, corrupt_doc])
     (snd (load_and_parse_pdfs ascii [checklist_doc, valid_doc, corrupt_doc])) \<and>
   length (snd (load_and_parse_pdfs ascii [first_upload, second_upload])) = 2 \<and>
   list_all (extracted_text [first_upload, second_upload])
     (snd (load_and_parse_pdfs ascii [first_upload, second_upload]))"
proof -
  have h: "distinct (map name [checklist_doc, valid_doc, corrupt_doc])"
    by (simp add: checklist_doc_def valid_doc_def corrupt_doc_def lit_def)
  have l: "length (snd (load_and_parse_pdfs ascii [checklist_doc, valid_doc, corrupt_doc])) = 3"
    by (simp add: checklist_doc_def checklist_text_def valid_doc_def corrupt_doc_def
        load_eval ascii_eval)
  have l2: "length (snd (load_and_parse_pdfs ascii [first_upload, second_upload])) = 2"
    by (simp add: first_upload_def second_upload_def load_eval ascii_eval)
  note t = page_text_consistency_distinct_names [of ascii "[checklist_doc, valid_doc, corrupt_doc]"]
  note t2 = page_text_consistency_distinct_names [of ascii "[first_upload, second_upload]"]
  from t h have c: "page_text_consistent
      (snd (load_and_parse_pdfs ascii [checklist_doc, valid_doc, corrupt_doc]))"
    by blast
  from t have e: "list_all (extracted_text [checklist_doc, valid_doc, corrupt_doc])
     (snd (load_and_parse_pdfs ascii [checklist_doc, valid_doc, corrupt_doc]))"
    unfolding list_all_iff by blast
  from t2 have e2: "list_all (extracted_text [first_upload, second_upload])
     (snd (load_and_parse_pdfs ascii [first_upload, second_upload]))"
    unfolding list_all_iff by blast
  from h c l e l2 e2 show ?thesis by (intro conjI)
qed

section \<open>Ranking: scores and order\<close>

lemma pieces_not_Nil: "pieces P s \<noteq> []"
  by (induction s) (auto split: list.splits)

lemma split_ws_pieces:
  "split_ws U cur s =
     filter (\<lambda>w. w \<noteq> []) ((cur @ hd (pieces (isspace U) s)) # tl (pieces (isspace U) s))"
proof (induction s arbitrary: cur)
  case Nil
  show ?case by simp
next
  case (Cons c s)
  obtain w ws where f: "pieces (isspace U) s = w # ws"
    using pieces_not_Nil [of "isspace U" s] by (cases "pieces (isspace U) s") auto
  show ?case
  proof (cases "isspace U c")
    case True
    then show ?thesis using Cons.IH [of "[]"] f by simp
  next
    case False
    then show ?thesis using Cons.IH [of "cur @ [c]"] f by simp
  qed
qed

lemma split_query_tokens: "split U (lower U query) = query_tokens U query"
proof -
  obtain w ws where f: "pieces (isspace U) (lower U query) = w # ws"
    using pieces_not_Nil [of "isspace U" "lower U query"]
    by (cases "pieces (isspace U) (lower U query)") auto
  show ?thesis
    unfolding split_def query_tokens_def split_ws_pieces [of U "[]" "lower U query"] f by simp
qed

lemma score_loop_count:
  "score_loop tokens text_lower score =
     score + length (filter (\<lambda>token. sublist token text_lower) tokens)"
  by (induction tokens arbitrary: score) simp_all

lemma score_loop_token_count:
  "score_loop (split U (lower U query)) (lower U t) 0 = token_count U query t"
  by (simp add: score_loop_count split_query_tokens token_count_def)

lemma score_pages_eq:
  "score_pages U (split U (lower U query)) rows results =
     results @ map (page_result U query)
                   (filter (\<lambda>pg. 0 < token_count U query (snd (snd pg))) rows)"
proof (induction rows arbitrary: results)
  case Nil
  show ?case by simp
next
  case (Cons pg rows)
  obtain f p t where pg: "pg = (f, p, t)" by (cases pg)
  show ?case
    unfolding pg by (simp add: Cons.IH score_loop_token_count page_result_def Let_def)
qed

lemma rank_eq:
  "rank U df user_query =
     (if user_query \<noteq> []
      then sorted_by_score_reverse
             (map (page_result U user_query)
                  (filter (\<lambda>pg. 0 < token_count U user_query (snd (snd pg))) (unique_pages df)))
      else [])"
  by (simp add: rank_def score_pages_eq)

lemma set_sorted_by_score_reverse: "set (sorted_by_score_reverse rs) = set rs"
  by (simp add: sorted_by_score_reverse_def)

lemma sorted_sorted_by_score_reverse:
  "sorted_wrt (\<lambda>a b. Score b \<le> Score a) (sorted_by_score_reverse rs)"
proof -
  have "sorted (map Score (sort_key Score (rev rs)))" by (rule sorted_sort_key)
  then have "sorted_wrt (\<lambda>a b. Score a \<le> Score b) (sort_key Score (rev rs))"
    by (simp add: sorted_map)
  then show ?thesis
    unfolding sorted_by_score_reverse_def by (simp add: sorted_wrt_rev)
qed

lemma Score_page_result: "Score (page_result U q pg) = token_count U q (snd (snd pg))"
  by (cases pg) (simp add: page_result_def)

lemma Text_page_result: "Text (page_result U q pg) = snd (snd pg)"
  by (cases pg) (simp add: page_result_def)

lemma first_index_filter:
  "a \<noteq> x \<Longrightarrow> b \<noteq> x \<Longrightarrow>
   length (takeWhile (\<lambda>y. y \<noteq> a) (filter (\<lambda>y. y \<noteq> x) xs))
     < length (takeWhile (\<lambda>y. y \<noteq> b) (filter (\<lambda>y. y \<noteq> x) xs)) \<Longrightarrow>
   length (takeWhile (\<lambda>y. y \<noteq> a) xs) < length (takeWhile (\<lambda>y. y \<noteq> b) xs)"
  by (induction xs) (auto split: if_splits)

lemma set_drop_duplicates: "set (drop_duplicates xs) = set xs"
  by (induction xs rule: drop_duplicates.induct) auto

lemma drop_duplicates_first_index:
  "sorted_wrt (\<lambda>a b. length (takeWhile (\<lambda>y. y \<noteq> a) xs) < length (takeWhile (\<lambda>y. y \<noteq> b) xs))
     (drop_duplicates xs)"
proof (induction xs rule: drop_duplicates.induct)
  case 1
  show ?case by simp
next
  case (2 x xs)
  have "sorted_wrt (\<lambda>a b. length (takeWhile (\<lambda>y. y \<noteq> a) (x # xs)) < length (takeWhile (\<lambda>y. y \<noteq> b) (x # xs)))
          (drop_duplicates (filter (\<lambda>y. y \<noteq> x) xs))"
    using "2.IH"
  proof (rule sorted_wrt_mono_rel [rotated])
    fix a b
    assume "a \<in> set (drop_duplicates (filter (\<lambda>y. y \<noteq> x) xs))"
      "b \<in> set (drop_duplicates (filter (\<lambda>y. y \<noteq> x) xs))"
      "length (takeWhile (\<lambda>y. y \<noteq> a) (filter (\<lambda>y. y \<noteq> x) xs))
         < length (takeWhile (\<lambda>y. y \<noteq> b) (filter (\<lambda>y. y \<noteq> x) xs))"
    then show "length (takeWhile (\<lambda>y. y \<noteq> a) (x # xs)) < length (takeWhile (\<lambda>y. y \<noteq> b) (x # xs))"
      using first_index_filter [of a x b xs] by (auto simp: set_drop_duplicates)
  qed
  then show ?case by (auto simp: set_drop_duplicates)
qed

lemma insort_key_lex:
  fixes f :: "'a \<Rightarrow> nat"
  assumes "\<forall>y \<in> set ys. S x y"
    and "sorted_wrt (\<lambda>a b. f a < f b \<or> (f a = f b \<and> S a b)) ys"
  shows "sorted_wrt (\<lambda>a b. f a < f b \<or> (f a = f b \<and> S a b)) (insort_key f x ys)"
  using assms by (induction ys) (auto simp: set_insort_key)

lemma sort_key_lex:
  fixes f :: "'a \<Rightarrow> nat"
  assumes "sorted_wrt S xs"
  shows "sorted_wrt (\<lambda>a b. f a < f b \<or> (f a = f b \<and> S a b)) (sort_key f xs)"
  using assms by (induction xs) (auto simp: sort_key_simps intro: insort_key_lex)

lemma sorted_by_score_reverse_lex:
  assumes "sorted_wrt S rs"
  shows "sorted_wrt (\<lambda>a b. Score b < Score a \<or> (Score a = Score b \<and> S a b)) (sorted_by_score_reverse rs)"
proof -
  from assms have "sorted_wrt (\<lambda>a b. S b a) (rev rs)" by (simp add: sorted_wrt_rev)
  then have "sorted_wrt (\<lambda>a b. Score a < Score b \<or> (Score a = Score b \<and> S b a)) (sort_key Score (rev rs))"
    by (rule sort_key_lex)
  then have "sorted_wrt (\<lambda>b a. Score a < Score b \<or> (Score a = Score b \<and> S b a)) (sorted_by_score_reverse rs)"
    by (simp add: sorted_by_score_reverse_def sorted_wrt_rev)
  then show ?thesis by (rule sorted_wrt_mono_rel [rotated]) auto
qed

lemma page_key_page_result: "page_key (page_result U q pg) = pg"
  by (cases pg) (simp add: page_result_def page_key_def)

lemma first_row_unique_pages:
  "sorted_wrt (\<lambda>a b. first_row df a < first_row df b) (unique_pages df)"
proof -
  have "first_row df pg =
          length (takeWhile (\<lambda>y. y \<noteq> pg) (map (\<lambda>row. (File row, Page row, Full_Page_Text row)) df))" for pg
    by (simp add: first_row_def takeWhile_map o_def)
  then show ?thesis
    unfolding unique_pages_def
    using drop_duplicates_first_index [of "map (\<lambda>row. (File row, Page row, Full_Page_Text row)) df"]
    by simp
qed

lemma rank_lex:
  "sorted_wrt (\<lambda>a b. Score b < Score a \<or>
                      (Score a = Score b \<and> first_row df (page_key a) < first_row df (page_key b)))
     (rank U df user_query)"
proof (cases "user_query = []")
  case True
  then show ?thesis by (simp add: rank_def)
next
  case False
  have "sorted_wrt (\<lambda>a b. first_row df (page_key a) < first_row df (page_key b))
          (map (page_result U user_query)
            (filter (\<lambda>pg. 0 < token_count U user_query (snd (snd pg))) (unique_pages df)))"
    by (simp add: sorted_wrt_map page_key_page_result sorted_wrt_filter first_row_unique_pages)
  then have "sorted_wrt (\<lambda>a b. Score b < Score a \<or>
                      (Score a = Score b \<and> first_row df (page_key a) < first_row df (page_key b)))
     (sorted_by_score_reverse (map (page_result U user_query)
            (filter (\<lambda>pg. 0 < token_count U user_query (snd (snd pg))) (unique_pages df))))"
    by (rule sorted_by_score_reverse_lex)
  with False show ?thesis by (simp add: rank_eq)
qed

lemma rank_scores:
  "r \<in> set (rank U df user_query) \<Longrightarrow>
     Score r = token_count U user_query (Text r) \<and> 0 < Score r"
  by (cases "user_query = []")
     (auto simp: rank_eq set_sorted_by_score_reverse Score_page_result Text_page_result)

lemmas rank_eval = rank_def split_def unique_pages_def sorted_by_score_reverse_def
  sort_key_simps sublist_Cons_right Let_def

lemma two_pages_rows:
  "snd (load_and_parse_pdfs ascii [two_pages_doc]) =
     [\<lparr>File = lit ''habits.pdf'', Page = 1, Line_Index = 0,
        Content = lit ''focus and dopamine drive habit'',
        Full_Page_Text = lit ''focus and dopamine drive habit''\<rparr>,
      \<lparr>File = lit ''habits.pdf'', Page = 2, Line_Index = 0,
        Content = lit ''unrelated content only'',
        Full_Page_Text = lit ''unrelated content only''\<rparr>]"
  by (simp add: two_pages_doc_def load_eval ascii_eval)

lemma three_pages_rows:
  "snd (load_and_parse_pdfs ascii [three_pages_doc]) =
     [\<lparr>File = lit ''review.pdf'', Page = 1, Line_Index = 0, Content = lit ''one habit'',
        Full_Page_Text = lit ''one habit''\<rparr>,
      \<lparr>File = lit ''review.pdf'', Page = 2, Line_Index = 0, Content = lit ''Dopamine and habit'',
        Full_Page_Text = lit ''Dopamine and habit''\<rparr>,
      \<lparr>File = lit ''review.pdf'', Page = 3, Line_Index = 0, Content = lit ''no match here'',
        Full_Page_Text = lit ''no match here''\<rparr>,
      \<lparr>File = lit ''review.pdf'', Page = 4, Line_Index = 0, Content = lit ''habit again'',
        Full_Page_Text = lit ''habit again''\<rparr>]"
  by (simp add: three_pages_doc_def load_eval ascii_eval)

text \<open>
  Claim C2. The score \<open>rank\<close> gives a page is the number of tokens of the query (the
  lowercased query cut at whitespace, empty tokens discarded, each token counted as often
  as the query has it) that occur in the lowercased page text: for a non-empty query the
  ranking is the sorted list of the unique pages with a positive count, each with its
  count as score, and every returned page carries its count. Lower case and whitespace
  are whatever \<open>str.lower\<close> and \<open>str.split\<close> take for them: the statement holds for every
  table \<open>U\<close>. On the pages "focus and dopamine drive habit" and "unrelated content only"
  the query "dopamine habit" returns the first page alone, with score 2; a token the
  query repeats counts twice, and a token the page repeats counts once.
\<close>

theorem rank_score:
  "rank U df user_query =
     (if user_query \<noteq> []
      then sorted_by_score_reverse
             (map (page_result U user_query)
                  (filter (\<lambda>pg. 0 < token_count U user_query (snd (snd pg))) (unique_pages df)))
      else [])
   \<and> (\<forall>r \<in> set (rank U df user_query). Score r = token_count U user_query (Text r))
   \<and> rank ascii (snd (load_and_parse_pdfs ascii [two_pages_doc])) (lit ''dopamine habit'') =
       [\<lparr>res_File = lit ''habits.pdf'', res_Page = 1,
          Text = lit ''focus and dopamine drive habit'', Score = 2\<rparr>]
   \<and> token_count ascii (lit ''habit habit'') (lit ''focus and dopamine drive habit'') = 2
   \<and> token_count ascii (lit ''habit'') (lit ''habit after habit'') = 1"
proof (intro conjI)
  show "rank U df user_query =
     (if user_query \<noteq> []
      then sorted_by_score_reverse
             (map (page_result U user_query)
                  (filter (\<lambda>pg. 0 < token_count U user_query (snd (snd pg))) (unique_pages df)))
      else [])"
    by (rule rank_eq)
  show "\<forall>r \<in> set (rank U df user_query). Score r = token_count U user_query (Text r)"
    using rank_scores [of _ U df user_query] by blast
  show "rank ascii (snd (load_and_parse_pdfs ascii [two_pages_doc])) (lit ''dopamine habit'') =
       [\<lparr>res_File = lit ''habits.pdf'', res_Page = 1,
          Text = lit ''focus and dopamine drive habit'', Score = 2\<rparr>]"
    unfolding two_pages_rows by (simp add: rank_eval ascii_eval)
  show "token_count ascii (lit ''habit habit'') (lit ''focus and dopamine drive habit'') = 2"
    by (simp add: token_count_def query_tokens_def sublist_Cons_right ascii_eval)
  show "token_count ascii (lit ''habit'') (lit ''habit after habit'') = 1"
    by (simp add: token_count_def query_tokens_def sublist_Cons_right ascii_eval)
qed

theorem rank_score_witness:
  "rank ascii (snd (load_and_parse_pdfs ascii [three_pages_doc])) (lit ''habit HABIT dopamine'') =
     [\<lparr>res_File = lit ''review.pdf'', res_Page = 2, Text = lit ''Dopamine and habit'', Score = 3\<rparr>,
      \<lparr>res_File = lit ''review.pdf'', res_Page = 1, Text = lit ''one habit'', Score = 2\<rparr>,
      \<lparr>res_File = lit ''review.pdf'', res_Page = 4, Text = lit ''habit again'', Score = 2\<rparr>]
   \<and> list_all (\<lambda>r. Score r = token_count ascii (lit ''habit HABIT dopamine'') (Text r))
        (rank ascii (snd (load_and_parse_pdfs ascii [three_pages_doc])) (lit ''habit HABIT dopamine''))"
proof -
  have "rank ascii (snd (load_and_parse_pdfs ascii [three_pages_doc])) (lit ''habit HABIT dopamine'') =
     [\<lparr>res_File = lit ''review.pdf'', res_Page = 2, Text = lit ''Dopamine and habit'', Score = 3\<rparr>,
      \<lparr>res_File = lit ''review.pdf'', res_Page = 1, Text = lit ''one habit'', Score = 2\<rparr>,
      \<lparr>res_File = lit ''review.pdf'', res_Page = 4, Text = lit ''habit again'', Score = 2\<rparr>]"
    unfolding three_pages_rows by (simp add: rank_eval ascii_eval)
  with rank_score [of ascii "snd (load_and_parse_pdfs ascii [three_pages_doc])"
      "lit ''habit HABIT dopamine''"]
  show ?thesis unfolding list_all_iff by blast
qed

text \<open>
  Claim C4. The list \<open>rank\<close> returns is in descending order of score, holds no page of
  score 0, and two returned pages of equal score stand in the order in which their first
  rows stand in the record set.
\<close>

theorem rank_order:
  "sorted_wrt (\<lambda>a b. Score b \<le> Score a) (rank U df user_query)
   \<and> (\<forall>r \<in> set (rank U df user_query). 0 < Score r)
   \<and> sorted_wrt (\<lambda>a b. Score a = Score b \<longrightarrow> first_row df (page_key a) < first_row df (page_key b))
        (rank U df user_query)"
proof (intro conjI)
  show "sorted_wrt (\<lambda>a b. Score b \<le> Score a) (rank U df user_query)"
    unfolding rank_eq by (simp add: sorted_sorted_by_score_reverse)
  show "\<forall>r \<in> set (rank U df user_query). 0 < Score r"
    using rank_scores [of _ U df user_query] by blast
  show "sorted_wrt (\<lambda>a b. Score a = Score b \<longrightarrow> first_row df (page_key a) < first_row df (page_key b))
          (rank U df user_query)"
    using rank_lex [of df U user_query] by (rule sorted_wrt_mono_rel [rotated]) auto
qed

theorem rank_order_witness:
  "rank ascii (snd (load_and_parse_pdfs ascii [three_pages_doc])) (lit ''dopamine  HABIT'') =
     [\<lparr>res_File = lit ''review.pdf'', res_Page = 2, Text = lit ''Dopamine and habit'', Score = 2\<rparr>,
      \<lparr>res_File = lit ''review.pdf'', res_Page = 1, Text = lit ''one habit'', Score = 1\<rparr>,
      \<lparr>res_File = lit ''review.pdf'', res_Page = 4, Text = lit ''habit again'', Score = 1\<rparr>]
   \<and> sorted_wrt (\<lambda>a b. Score b \<le> Score a)
        (rank ascii (snd (load_and_parse_pdfs ascii [three_pages_doc])) (lit ''dopamine  HABIT''))
   \<and> list_all (\<lambda>r. 0 < Score r)
        (rank ascii (snd (load_and_parse_pdfs ascii [three_pages_doc])) (lit ''dopamine  HABIT''))
   \<and> sorted_wrt (\<lambda>a b. Score a = Score b \<longrightarrow>
                    first_row (snd (load_and_parse_pdfs ascii [three_pages_doc])) (page_key a)
                      < first_row (snd (load_and_parse_pdfs ascii [three_pages_doc])) (page_key b))
        (rank ascii (snd (load_and_parse_pdfs ascii [three_pages_doc])) (lit ''dopamine  HABIT''))"
proof -
  have "rank ascii (snd (load_and_parse_pdfs ascii [three_pages_doc])) (lit ''dopamine  HABIT'') =
     [\<lparr>res_File = lit ''review.pdf'', res_Page = 2, Text = lit ''Dopamine and habit'', Score = 2\<rparr>,
      \<lparr>res_File = lit ''review.pdf'', res_Page = 1, Text = lit ''one habit'', Score = 1\<rparr>,
      \<lparr>res_File = lit ''review.pdf'', res_Page = 4, Text = lit ''habit again'', Score = 1\<rparr>]"
    unfolding three_pages_rows by (simp add: rank_eval ascii_eval)
  with rank_order [of ascii "snd (load_and_parse_pdfs ascii [three_pages_doc])"
      "lit ''dopamine  HABIT''"]
  show ?thesis unfolding list_all_iff by blast
qed

section \<open>Blank queries\<close>

lemma split_ws_blank: "list_all (isspace U) s \<Longrightarrow> split_ws U [] s = []"
  by (induction s) simp_all

lemma score_pages_no_tokens: "score_pages U [] rows results = results"
  by (induction rows arbitrary: results) auto

lemma rank_blank:
  assumes "list_all (isspace U) (lower U q)"
  shows "rank U df q = []"
  using assms
  by (simp add: rank_def split_def split_ws_blank score_pages_no_tokens sorted_by_score_reverse_def)

lemma ascii_lower_blank: "list_all whitespace s \<Longrightarrow> list_all whitespace (map ascii_lower s)"
  by (induction s) (auto simp: whitespace_def ascii_lower_def)

text \<open>
  Claim C1, as the code has it. The search is guarded by \<open>if query:\<close>, which lets a query
  of whitespace through; a space is then searched like any other text, and matches the
  lines that hold a space.
\<close>

theorem blank_query_counterexample:
  "list_all (isspace ascii) (lit '' '')
   \<and> search ascii (snd (load_and_parse_pdfs ascii [two_pages_doc])) (lit '' '') \<noteq> []"
  unfolding two_pages_rows
  by (simp add: search_def str_contains_def sublist_Cons_right ascii_eval)

text \<open>
  Claim C1, amended. For every empty or whitespace-only query the ranking is empty,
  whitespace being what \<open>str.split\<close> takes for it, and lowercasing leaving a string of
  whitespace a string of whitespace, as Python's does. The search is empty for the empty
  query; a non-empty query of whitespace is searched like any other query.
\<close>

theorem blank_query:
  assumes "list_all (isspace U) query"
    and "\<And>s. list_all (isspace U) s \<Longrightarrow> list_all (isspace U) (lower U s)"
  shows "rank U df query = []
       \<and> search U df [] = []
       \<and> search U df query =
           (if query = [] then [] else filter (\<lambda>row. str_contains U query (Content row)) df)"
proof -
  from assms have "list_all (isspace U) (lower U query)" by blast
  then have "rank U df query = []" by (rule rank_blank)
  then show ?thesis by (simp add: search_def)
qed

theorem blank_query_witness:
  "list_all (isspace ascii) [32, 9, 0xA0, 0x3000] \<and>
   rank ascii (snd (load_and_parse_pdfs ascii [two_pages_doc])) [32, 9, 0xA0, 0x3000] = [] \<and>
   rank ascii (snd (load_and_parse_pdfs ascii [two_pages_doc])) [] = [] \<and>
   search ascii (snd (load_and_parse_pdfs ascii [two_pages_doc])) [] = []"
proof -
  have h: "list_all (isspace ascii) [32, 9, 0xA0, 0x3000]" by (simp add: ascii_eval)
  have e: "list_all (isspace ascii) []" by simp
  have l: "list_all (isspace ascii) s \<Longrightarrow> list_all (isspace ascii) (lower ascii s)" for s
    using ascii_lower_blank [of s] by (simp add: ascii_def)
  from blank_query [OF h l, of "snd (load_and_parse_pdfs ascii [two_pages_doc])"]
    blank_query [OF e l, of "snd (load_and_parse_pdfs ascii [two_pages_doc])"] h
  show ?thesis by simp
qed

section \<open>The checklist filter: the markers\<close>

lemma rests_word:
  "rests U (word w) s = (if starts_with_ignoring_case U w s then [drop (length w) s] else [])"
proof (induction w arbitrary: s)
  case Nil
  show ?case by (simp add: starts_with_ignoring_case_def)
next
  case (Cons c w)
  show ?case
  proof (cases s)
    case Nil
    then show ?thesis by (simp add: starts_with_ignoring_case_def)
  next
    case (Cons x xs)
    show ?thesis
    proof (cases "ignorecase U c x")
      case True
      with Cons show ?thesis using Cons.IH [of xs] by (simp add: starts_with_ignoring_case_def)
    next
      case False
      with Cons show ?thesis by (simp add: starts_with_ignoring_case_def)
    qed
  qed
qed

lemma rests_Digits1: "rests U Digits1 s \<noteq> [] \<longleftrightarrow> takeWhile (decimal U) s \<noteq> []"
  by (cases "takeWhile (decimal U) s") simp_all

lemma rests_word_Digits1:
  "rests U (Seq (word w) Digits1) s \<noteq> [] \<longleftrightarrow>
     starts_with_ignoring_case U w s \<and> digits_after U w s"
  using rests_Digits1 [of U "drop (length w) s"]
  by (cases "starts_with_ignoring_case U w s")
     (simp_all add: rests_word digits_after_def del: rests.simps(3))

lemma rests_glyph:
  assumes "\<And>c. ignorecase U g c \<longleftrightarrow> c = g"
  shows "rests U (Lit g) s \<noteq> [] \<longleftrightarrow> prefix [g] s"
  by (cases s) (auto simp: assms)

lemma str_contains_regex_pattern:
  assumes "\<And>c. ignorecase U ballot_box c \<longleftrightarrow> c = ballot_box"
    and "\<And>c. ignorecase U ballot_box_with_check c \<longleftrightarrow> c = ballot_box_with_check"
    and "\<And>c. ignorecase U check_mark c \<longleftrightarrow> c = check_mark"
    and "\<And>c. ignorecase U bullet c \<longleftrightarrow> c = bullet"
  shows "str_contains_regex U pattern s \<longleftrightarrow> begins_with_marker U s"
proof -
  have w: "rests U (word w) s \<noteq> [] \<longleftrightarrow> starts_with_ignoring_case U w s" for w
    by (simp add: rests_word)
  note g = rests_glyph [of U ballot_box s, OF assms(1)]
    rests_glyph [of U ballot_box_with_check s, OF assms(2)]
    rests_glyph [of U check_mark s, OF assms(3)]
    rests_glyph [of U bullet s, OF assms(4)]
  have "str_contains_regex U pattern s \<longleftrightarrow>
          rests U (Seq (word (lit ''Step '')) Digits1) s \<noteq> []
        \<or> rests U (word (lit ''Action'')) s \<noteq> []
        \<or> rests U (Lit ballot_box) s \<noteq> []
        \<or> rests U (Lit ballot_box_with_check) s \<noteq> []
        \<or> rests U (Lit check_mark) s \<noteq> []
        \<or> rests U (Lit bullet) s \<noteq> []
        \<or> rests U (Seq (word (lit ''Rule '')) Digits1) s \<noteq> []
        \<or> rests U (word (lit ''Metric'')) s \<noteq> []"
    unfolding str_contains_regex_def pattern_def rests.simps(5) append_is_Nil_conv de_Morgan_conj
    by (rule refl)
  also have "\<dots> \<longleftrightarrow> begins_with_marker U s"
    unfolding rests_word_Digits1 w g begins_with_marker_def by (rule refl)
  finally show ?thesis .
qed

lemma ascii_glyph: "65 \<le> g \<Longrightarrow> 122 < g \<Longrightarrow> ignorecase ascii g c \<longleftrightarrow> c = g"
  by (auto simp: ascii_def ascii_lower_def)

lemmas regex_eval = extract_action_items_def str_contains_regex_def pattern_def
  ballot_box_def ballot_box_with_check_def check_mark_def bullet_def

text \<open>
  Claim C3. \<open>extract_action_items\<close> keeps exactly the rows whose content begins with one
  of the markers: "Step " and a digit, "Action", one of the four glyphs, "Rule " and a
  digit, or "Metric". The words are compared character by character without regard to
  case, and a digit is a decimal digit, both as \<open>re\<close> takes them: the statement holds for
  every table \<open>U\<close> in which each of the four glyphs, having no case, is matched by itself
  alone, as in Python's. A marker further inside the line does not count: with the
  example tables, "Step 1: do X" is kept and "See Step 1 above" is not.
\<close>

theorem action_items_begin_with_marker:
  assumes "\<And>c. ignorecase U ballot_box c \<longleftrightarrow> c = ballot_box"
    and "\<And>c. ignorecase U ballot_box_with_check c \<longleftrightarrow> c = ballot_box_with_check"
    and "\<And>c. ignorecase U check_mark c \<longleftrightarrow> c = check_mark"
    and "\<And>c. ignorecase U bullet c \<longleftrightarrow> c = bullet"
  shows "extract_action_items U df = filter (\<lambda>row. begins_with_marker U (Content row)) df
       \<and> str_contains_regex ascii pattern (lit ''Step 1: do X'')
       \<and> \<not> str_contains_regex ascii pattern (lit ''See Step 1 above'')"
proof (intro conjI)
  show "extract_action_items U df = filter (\<lambda>row. begins_with_marker U (Content row)) df"
    by (simp add: extract_action_items_def str_contains_regex_pattern [OF assms])
  show "str_contains_regex ascii pattern (lit ''Step 1: do X'')"
    by (simp add: regex_eval ascii_eval)
  show "\<not> str_contains_regex ascii pattern (lit ''See Step 1 above'')"
    by (simp add: regex_eval ascii_eval)
qed

theorem action_items_begin_with_marker_witness:
  "filter (\<lambda>row. begins_with_marker ascii (Content row))
          (snd (load_and_parse_pdfs ascii [checklist_doc])) =
       [\<lparr>File = lit ''plan.pdf'', Page = 2, Line_Index = 0, Content = lit ''Step 1: do X'',
          Full_Page_Text = checklist_text\<rparr>]
   \<and> extract_action_items ascii (snd (load_and_parse_pdfs ascii [checklist_doc])) =
       [\<lparr>File = lit ''plan.pdf'', Page = 2, Line_Index = 0, Content = lit ''Step 1: do X'',
          Full_Page_Text = checklist_text\<rparr>]
   \<and> str_contains_regex ascii pattern (lit ''Step 1: do X'')
   \<and> \<not> str_contains_regex ascii pattern (lit ''See Step 1 above'')
   \<and> str_contains_regex ascii pattern (lit ''mEtRiC: pages read'')
   \<and> str_contains_regex ascii pattern (lit ''rule 42 of the day'')
   \<and> str_contains_regex ascii pattern (ballot_box # lit '' call the bank'')
   \<and> str_contains_regex ascii pattern (bullet # lit '' one point'')
   \<and> \<not> str_contains_regex ascii pattern (lit ''- '' @ [bullet] @ lit '' one point'')
   \<and> \<not> str_contains_regex ascii pattern (lit ''Step one'')
   \<and> \<not> str_contains_regex ascii pattern (lit ''Steps 1 and 2'')"
proof -
  have g: "ignorecase ascii ballot_box c \<longleftrightarrow> c = ballot_box"
    "ignorecase ascii ballot_box_with_check c \<longleftrightarrow> c = ballot_box_with_check"
    "ignorecase ascii check_mark c \<longleftrightarrow> c = check_mark"
    "ignorecase ascii bullet c \<longleftrightarrow> c = bullet" for c
    by (rule ascii_glyph; simp add: ballot_box_def ballot_box_with_check_def check_mark_def
        bullet_def)+
  have e: "extract_action_items ascii (snd (load_and_parse_pdfs ascii [checklist_doc])) =
       [\<lparr>File = lit ''plan.pdf'', Page = 2, Line_Index = 0, Content = lit ''Step 1: do X'',
          Full_Page_Text = checklist_text\<rparr>]"
    unfolding checklist_rows by (simp add: regex_eval ascii_eval)
  from action_items_begin_with_marker [of ascii "snd (load_and_parse_pdfs ascii [checklist_doc])",
      OF g]
  have "extract_action_items ascii (snd (load_and_parse_pdfs ascii [checklist_doc])) =
      filter (\<lambda>row. begins_with_marker ascii (Content row))
          (snd (load_and_parse_pdfs ascii [checklist_doc]))"
    by blast
  with e have f: "filter (\<lambda>row. begins_with_marker ascii (Content row))
          (snd (load_and_parse_pdfs ascii [checklist_doc])) =
       [\<lparr>File = lit ''plan.pdf'', Page = 2, Line_Index = 0, Content = lit ''Step 1: do X'',
          Full_Page_Text = checklist_text\<rparr>]"
    by simp
  have 1: "str_contains_regex ascii pattern (lit ''Step 1: do X'')"
    by (simp add: regex_eval ascii_eval)
  have 2: "\<not> str_contains_regex ascii pattern (lit ''See Step 1 above'')"
    by (simp add: regex_eval ascii_eval)
  have 3: "str_contains_regex ascii pattern (lit ''mEtRiC: pages read'')"
    by (simp add: regex_eval ascii_eval)
  have 4: "str_contains_regex ascii pattern (lit ''rule 42 of the day'')"
    by (simp add: regex_eval ascii_eval)
  have 5: "str_contains_regex ascii pattern (ballot_box # lit '' call the bank'')"
    by (simp add: regex_eval ascii_eval)
  have 6: "str_contains_regex ascii pattern (bullet # lit '' one point'')"
    by (simp add: regex_eval ascii_eval)
  have 7: "\<not> str_contains_regex ascii pattern (lit ''- '' @ [bullet] @ lit '' one point'')"
    by (simp add: regex_eval ascii_eval)
  have 8: "\<not> str_contains_regex ascii pattern (lit ''Step one'')"
    by (simp add: regex_eval ascii_eval)
  have 9: "\<not> str_contains_regex ascii pattern (lit ''Steps 1 and 2'')"
    by (simp add: regex_eval ascii_eval)
  from f e 1 2 3 4 5 6 7 8 9 show ?thesis by (intro conjI)
qed

section \<open>Global search: literal and without regard to case\<close>









section \<open>Highlighting: the three casings\<close>

lemma replace_Nil: "old \<noteq> [] \<Longrightarrow> replace [] old new = []"
  by (simp add: replace.simps)

lemma replace_prefix:
  "old \<noteq> [] \<Longrightarrow> prefix old s \<Longrightarrow> replace s old new = new @ replace (drop (length old) s) old new"
  by (subst replace.simps) auto

lemma replace_Cons:
  "old \<noteq> [] \<Longrightarrow> \<not> prefix old (c # cs) \<Longrightarrow> replace (c # cs) old new = c # replace cs old new"
  by (subst replace.simps) simp

lemma replace_absent: "old \<noteq> [] \<Longrightarrow> \<not> sublist old s \<Longrightarrow> replace s old new = s"
  by (induction s) (simp_all add: replace_Nil replace_Cons sublist_Cons_right)

lemma replace_present: "sublist old s \<Longrightarrow> sublist new (replace s old new)"
proof (cases "old = []")
  case True
  then show ?thesis by (simp add: replace.simps)
next
  case False
  assume "sublist old s"
  then show ?thesis
  proof (induction s)
    case Nil
    with False show ?case by simp
  next
    case (Cons c cs)
    show ?case
    proof (cases "prefix old (c # cs)")
      case True
      with False show ?thesis by (simp add: replace_prefix)
    next
      case no: False
      with Cons.prems have "sublist old cs" by (simp add: sublist_Cons_right)
      then have "sublist new (replace cs old new)" by (rule Cons.IH)
      with False no show ?thesis by (simp add: replace_Cons sublist_Cons_right)
    qed
  qed
qed













lemmas highlight_eval = highlight_def marker_def replace.simps



lemma replace_star:
  assumes "old \<noteq> []" "asterisk \<notin> set old"
  shows "replace (asterisk # s) old new = asterisk # replace s old new"
proof -
  from assms have "\<not> prefix old (asterisk # s)"
    by (cases old) auto
  with assms(1) show ?thesis by (rule replace_Cons)
qed

lemma replace_stars:
  assumes "old \<noteq> []" "asterisk \<notin> set old"
  shows "stars p \<Longrightarrow> replace (p @ s) old new = p @ replace s old new"
  by (induction p) (simp_all add: stars_def replace_star [OF assms])

lemma prefix_replace:
  assumes "old \<noteq> []"
  shows "asterisk \<notin> set p \<Longrightarrow> prefix p (replace s old (asterisk # new)) \<Longrightarrow> prefix p s"
proof (induction s arbitrary: p)
  case Nil
  with assms show ?case by (simp add: replace_Nil)
next
  case (Cons c cs)
  show ?case
  proof (cases "prefix old (c # cs)")
    case True
    with assms Cons.prems
    have "prefix p (asterisk # new @ replace (drop (length old) (c # cs)) old (asterisk # new))"
      by (simp add: replace_prefix)
    with Cons.prems(1) have "p = []" by (cases p) auto
    then show ?thesis by simp
  next
    case False
    with assms Cons.prems have pc: "prefix p (c # replace cs old (asterisk # new))"
      by (simp add: replace_Cons)
    show ?thesis
    proof (cases p)
      case Nil
      then show ?thesis by simp
    next
      case (Cons x xs)
      with pc Cons.prems(1) have "x = c" "asterisk \<notin> set xs"
        "prefix xs (replace cs old (asterisk # new))" by auto
      with Cons.IH [of xs] Cons show ?thesis by simp
    qed
  qed
qed

lemma replace_twice:
  assumes q: "q \<noteq> []" "asterisk \<notin> set q"
    and p: "stars (asterisk # pre)" "stars post"
  shows "replace (replace s q (asterisk # pre @ q @ post)) q new
           = replace s q (asterisk # pre @ new @ post)"
proof (induction s rule: length_induct)
  case (1 s)
  show ?case
  proof (cases s)
    case Nil
    with q show ?thesis by (simp add: replace_Nil)
  next
    case (Cons c cs)
    show ?thesis
    proof (cases "prefix q s")
      case True
      define r where "r = drop (length q) s"
      from q True Cons have "length r < length s" by (cases q) (auto simp: r_def)
      with 1 have IH: "replace (replace r q (asterisk # pre @ q @ post)) q new
           = replace r q (asterisk # pre @ new @ post)" by blast
      have a: "replace s q N = N @ replace r q N" for N
        using q(1) True unfolding r_def by (rule replace_prefix)
      have "replace ((asterisk # pre) @ q @ post @ R) q new
              = (asterisk # pre) @ new @ post @ replace R q new" for R
      proof -
        have "replace ((asterisk # pre) @ q @ post @ R) q new
                = (asterisk # pre) @ replace (q @ post @ R) q new"
          using q p(1) by (rule replace_stars)
        also have "replace (q @ post @ R) q new = new @ replace (post @ R) q new"
          using q(1) by (simp add: replace_prefix)
        also have "replace (post @ R) q new = post @ replace R q new"
          using q p(2) by (rule replace_stars)
        finally show ?thesis by simp
      qed
      from this [of "replace r q (asterisk # pre @ q @ post)"] show ?thesis
        by (simp add: a IH)
    next
      case False
      from 1 Cons have IH: "replace (replace cs q (asterisk # pre @ q @ post)) q new
           = replace cs q (asterisk # pre @ new @ post)" by simp
      have a: "replace s q N = c # replace cs q N" for N
        using q(1) False unfolding Cons by (rule replace_Cons)
      have "\<not> prefix q (c # replace cs q (asterisk # pre @ q @ post))"
      proof
        assume "prefix q (c # replace cs q (asterisk # pre @ q @ post))"
        then have "prefix q (replace s q (asterisk # pre @ q @ post))" by (simp add: a)
        with q have "prefix q s" by (intro prefix_replace [of q q s "pre @ q @ post"]) auto
        with False show False by simp
      qed
      with q(1) have "replace (c # replace cs q (asterisk # pre @ q @ post)) q new
              = c # replace (replace cs q (asterisk # pre @ q @ post)) q new"
        by (rule replace_Cons)
      then show ?thesis by (simp add: a IH)
    qed
  qed
qed

lemma replace_skip:
  assumes "old \<noteq> []" "c0 \<notin> set old"
  shows "replace (a @ c0 # r) old new = replace a old new @ c0 # replace r old new"
proof (induction a rule: length_induct)
  case (1 a)
  show ?case
  proof (cases a)
    case Nil
    from assms have "\<not> prefix old (c0 # r)" by (cases old) auto
    with assms(1) have "replace (c0 # r) old new = c0 # replace r old new" by (rule replace_Cons)
    with Nil assms(1) show ?thesis by (simp add: replace_Nil)
  next
    case (Cons x xs)
    show ?thesis
    proof (cases "prefix old a")
      case True
      then have t: "prefix old (a @ c0 # r)" by (rule prefix_prefix)
      from True have d: "drop (length old) (a @ c0 # r) = drop (length old) a @ c0 # r"
        by (simp add: prefix_length_le)
      from assms(1) True Cons have "length (drop (length old) a) < length a" by (cases old) auto
      with 1 have IH: "replace (drop (length old) a @ c0 # r) old new
            = replace (drop (length old) a) old new @ c0 # replace r old new" by blast
      have "replace (a @ c0 # r) old new
              = new @ replace (drop (length old) (a @ c0 # r)) old new"
        using assms(1) t by (rule replace_prefix)
      also have "\<dots> = new @ replace (drop (length old) a) old new @ c0 # replace r old new"
        by (simp only: d IH)
      also have "\<dots> = replace a old new @ c0 # replace r old new"
        by (simp add: replace_prefix [OF assms(1) True])
      finally show ?thesis .
    next
      case False
      have n: "\<not> prefix old (a @ c0 # r)"
      proof
        assume pr: "prefix old (a @ c0 # r)"
        then have "prefix old a \<or> prefix (a @ [c0]) old"
          by (metis append.assoc append_Cons append_Nil prefix_append prefix_same_cases prefix_snoc)
        with False have "prefix (a @ [c0]) old" by simp
        then have "c0 \<in> set old" by (auto simp: prefix_def)
        with assms(2) show False by simp
      qed
      from 1 Cons have "replace (xs @ c0 # r) old new
            = replace xs old new @ c0 # replace r old new" by simp
      with n False show ?thesis
        unfolding Cons using assms(1) by (simp add: replace_Cons)
    qed
  qed
qed

text \<open>A stretch between asterisks that does not hold \<open>old\<close> comes through a replacement of
  \<open>old\<close>, when \<open>old\<close> holds no asterisk.\<close>

lemma replace_keeps_block:
  assumes old: "old \<noteq> []" "asterisk \<notin> set old" and x: "\<not> sublist old x"
    and p: "stars p" "stars p'"
    and s: "sublist ((asterisk # p) @ x @ (asterisk # p')) s"
  shows "sublist ((asterisk # p) @ x @ (asterisk # p')) (replace s old new)"
proof -
  from s obtain a b where s: "s = a @ asterisk # (p @ x @ asterisk # (p' @ b))"
    by (auto simp: sublist_def)
  have "replace s old new = replace a old new @ asterisk # replace (p @ x @ asterisk # (p' @ b)) old new"
    unfolding s using old by (rule replace_skip)
  also have "replace (p @ x @ asterisk # (p' @ b)) old new
              = p @ replace (x @ asterisk # (p' @ b)) old new"
    using old p(1) by (rule replace_stars)
  also have "replace (x @ asterisk # (p' @ b)) old new
              = replace x old new @ asterisk # replace (p' @ b) old new"
    using old by (rule replace_skip)
  also have "replace x old new = x" using old(1) x by (rule replace_absent)
  also have "replace (p' @ b) old new = p' @ replace b old new"
    using old p(2) by (rule replace_stars)
  finally have "replace s old new
      = replace a old new @ ((asterisk # p) @ x @ (asterisk # p')) @ replace b old new"
    by simp
  then show ?thesis unfolding sublist_def by blast
qed

lemma sublist_same_length:
  assumes "sublist a b" "length b \<le> length a"
  shows "a = b"
proof -
  from assms(1) obtain ps ss where b: "b = ps @ a @ ss" by (auto simp: sublist_def)
  with assms(2) have "ps = []" "ss = []" by simp_all
  with b show ?thesis by simp
qed

lemma stars_lit: "stars (lit ''*'')" "stars (lit ''**'')" "stars (lit ''***'')" "stars (lit ''****'')"
  by (simp_all add: stars_def asterisk_def lit_def)

text \<open>
  Claim C7, as the code has it. The marker is made of asterisks; a query that holds
  asterisks itself can be found again across the edge of a marker by the second pass, and
  the occurrence then does not end up between doubled markers.
\<close>

theorem highlight_lowercase_query_counterexample:
  "lower ascii (lit ''a**a'') = lit ''a**a''
   \<and> sublist (lit ''a**a'') (lit ''aa**a'')
   \<and> search ascii [\<lparr>File = lit ''f.pdf'', Page = 1, Line_Index = 0, Content = lit ''aa**a'',
               Full_Page_Text = lit ''aa**a''\<rparr>] (lit ''a**a'') \<noteq> []
   \<and> highlight ascii (lit ''aa**a'') (lit ''a**a'') = lit ''**a**a****a**''
   \<and> \<not> sublist (lit ''****'' @ lit ''a**a'' @ lit ''****'')
         (highlight ascii (lit ''aa**a'') (lit ''a**a''))"
proof -
  have 1: "lower ascii (lit ''a**a'') = lit ''a**a''"
    by (simp add: ascii_eval)
  have 2: "sublist (lit ''a**a'') (lit ''aa**a'')"
    by (simp add: sublist_Cons_right lit_def)
  have 3: "search ascii [\<lparr>File = lit ''f.pdf'', Page = 1, Line_Index = 0, Content = lit ''aa**a'',
               Full_Page_Text = lit ''aa**a''\<rparr>] (lit ''a**a'') \<noteq> []"
    by (simp add: search_def str_contains_def sublist_Cons_right ascii_eval)
  have 4: "highlight ascii (lit ''aa**a'') (lit ''a**a'') = lit ''**a**a****a**''"
    by (simp add: highlight_eval ascii_eval)
  have 5: "\<not> sublist (lit ''****'' @ lit ''a**a'' @ lit ''****'')
         (highlight ascii (lit ''aa**a'') (lit ''a**a''))"
    unfolding 4 by (simp add: sublist_Cons_right lit_def)
  from 1 2 3 4 5 show ?thesis by (intro conjI)
qed

text \<open>
  Claim C7, amended. Take a non-empty query that equals its own lowercasing, holds no
  asterisk and occurs in the content, capitalizing being as Python's: it does not make
  the query shorter and brings no asterisk into it. Then the pass for the query as typed
  and the pass for the lowercased query are the same replacement, together they put every
  occurrence they replace between doubled markers, and the result of the highlighting
  holds the query between doubled markers. When capitalizing leaves the query as it is,
  the third pass is the same replacement once more and the markers are tripled.
\<close>

theorem highlight_lowercase_query:
  assumes "query \<noteq> []" "lower U query = query" "asterisk \<notin> set query" "sublist query content"
    and "asterisk \<notin> set (capitalize U query)" "length query \<le> length (capitalize U query)"
  shows "replace (replace content query (marker query)) (lower U query) (marker query)
           = replace content query (lit ''****'' @ query @ lit ''****'')
       \<and> sublist (lit ''****'' @ query @ lit ''****'') (highlight U content query)
       \<and> (capitalize U query = query \<longrightarrow>
            highlight U content query = replace content query (lit ''******'' @ query @ lit ''******''))"
proof -
  define h2 where
    "h2 = replace (replace content query (marker query)) (lower U query) (marker query)"
  have two: "h2 = replace content query (lit ''****'' @ query @ lit ''****'')"
    using replace_twice [OF assms(1,3), of "lit ''*''" "lit ''**''" content "marker query"]
    by (simp add: h2_def assms(2) marker_def stars_def asterisk_def lit_def)
  from assms(4) have in2: "sublist (lit ''****'' @ query @ lit ''****'') h2"
    unfolding two by (rule replace_present)
  have h: "highlight U content query = replace h2 (capitalize U query) (marker query)"
    by (simp add: highlight_def h2_def)
  have three: "highlight U content query
                 = replace content query (lit ''******'' @ query @ lit ''******'')"
    if "capitalize U query = query"
    using replace_twice [OF assms(1,3), of "lit ''***''" "lit ''****''" content "marker query"]
    by (simp add: h two that marker_def stars_def asterisk_def lit_def)
  have "sublist (lit ''****'' @ query @ lit ''****'') (highlight U content query)"
  proof (cases "capitalize U query = query")
    case True
    then have a: "highlight U content query
                    = replace content query (lit ''******'' @ query @ lit ''******'')"
      by (rule three)
    have b: "sublist (lit ''******'' @ query @ lit ''******'')
               (replace content query (lit ''******'' @ query @ lit ''******''))"
      using assms(4) by (rule replace_present)
    have "lit ''******'' @ query @ lit ''******''
            = lit ''**'' @ (lit ''****'' @ query @ lit ''****'') @ lit ''**''"
      by (simp add: lit_def)
    then have c: "sublist (lit ''****'' @ query @ lit ''****'') (lit ''******'' @ query @ lit ''******'')"
      unfolding sublist_def by blast
    from c b have "sublist (lit ''****'' @ query @ lit ''****'')
                     (replace content query (lit ''******'' @ query @ lit ''******''))"
      by (rule sublist_order.order_trans)
    then show ?thesis by (simp only: a)
  next
    case False
    have 1: "capitalize U query \<noteq> []" using assms(1,6) by auto
    have 2: "\<not> sublist (capitalize U query) query"
    proof
      assume "sublist (capitalize U query) query"
      from this assms(6) have "capitalize U query = query" by (rule sublist_same_length)
      with False show False by simp
    qed
    have e: "lit ''****'' @ query @ lit ''****''
               = (asterisk # lit ''***'') @ query @ (asterisk # lit ''***'')"
      by (simp add: lit_def asterisk_def)
    from in2 have "sublist ((asterisk # lit ''***'') @ query @ (asterisk # lit ''***'')) h2"
      unfolding e .
    with 1 assms(5) 2 stars_lit(3) stars_lit(3)
    have "sublist ((asterisk # lit ''***'') @ query @ (asterisk # lit ''***''))
            (replace h2 (capitalize U query) (marker query))"
      by (rule replace_keeps_block)
    then show ?thesis unfolding e h .
  qed
  with two three show ?thesis by (simp add: h2_def)
qed

theorem highlight_lowercase_query_witness:
  "lit ''dopamine'' \<noteq> [] \<and> lower ascii (lit ''dopamine'') = lit ''dopamine''
   \<and> asterisk \<notin> set (lit ''dopamine'')
   \<and> sublist (lit ''dopamine'') (lit ''more dopamine today'')
   \<and> asterisk \<notin> set (capitalize ascii (lit ''dopamine''))
   \<and> length (lit ''dopamine'') \<le> length (capitalize ascii (lit ''dopamine''))
   \<and> sublist (lit ''****'' @ lit ''dopamine'' @ lit ''****'')
        (highlight ascii (lit ''more dopamine today'') (lit ''dopamine''))
   \<and> highlight ascii (lit ''more dopamine today'') (lit ''dopamine'')
        = lit ''more ****dopamine**** today''
   \<and> highlight ascii (lit ''dopamine or not dopamine'') (lit ''dopamine'')
        = lit ''****dopamine**** or not ****dopamine****''
   \<and> highlight ascii (lit ''the 5 second rule'') (lit ''5 second rule'')
        = lit ''the ******5 second rule******''"
proof -
  have 1: "lit ''dopamine'' \<noteq> []" by (simp add: lit_def)
  have 2: "lower ascii (lit ''dopamine'') = lit ''dopamine''" by (simp add: ascii_eval)
  have 3: "asterisk \<notin> set (lit ''dopamine'')" by (simp add: lit_def asterisk_def)
  have 4: "sublist (lit ''dopamine'') (lit ''more dopamine today'')"
    by (simp add: sublist_Cons_right lit_def)
  have 5: "asterisk \<notin> set (capitalize ascii (lit ''dopamine''))"
    by (simp add: ascii_eval asterisk_def)
  have 6: "length (lit ''dopamine'') \<le> length (capitalize ascii (lit ''dopamine''))"
    by (simp add: ascii_eval)
  have 7: "highlight ascii (lit ''more dopamine today'') (lit ''dopamine'')
        = lit ''more ****dopamine**** today''"
    by (simp add: highlight_eval ascii_eval)
  have 8: "highlight ascii (lit ''dopamine or not dopamine'') (lit ''dopamine'')
        = lit ''****dopamine**** or not ****dopamine****''"
    by (simp add: highlight_eval ascii_eval)
  have 9: "highlight ascii (lit ''the 5 second rule'') (lit ''5 second rule'')
        = lit ''the ******5 second rule******''"
    by (simp add: highlight_eval ascii_eval)
  from highlight_lowercase_query [OF 1 2 3 4 5 6]
  have "sublist (lit ''****'' @ lit ''dopamine'' @ lit ''****'')
        (highlight ascii (lit ''more dopamine today'') (lit ''dopamine''))"
    by blast
  with 1 2 3 4 5 6 7 8 9 show ?thesis by (intro conjI)
qed

end
